theory Spec2Isabelle
  imports
    Main
    "HOL-Library.Multiset"
    "HOL-Library.List_Lexorder"
    "HOL-Library.Product_Lexorder"
begin

section \<open>The lookup plugin \<^verbatim>\<open>gl_latest_version\<close>\<close>

text \<open>
  The plugin is one method, \<^verbatim>\<open>LookupModule.run\<close>: it fetches a bucket listing, scrapes
  the object names out of it with a regular expression, takes the version segment of each
  name, and returns the greatest version under a tokenised key. The method is modelled
  stage by stage, in the order of the source. What the method asks of the Python runtime
  (decoding bytes, the three regular expressions, \<^verbatim>\<open>int\<close>, \<^verbatim>\<open>set\<close>, \<^verbatim>\<open>sorted\<close>) is modelled
  by functions that follow the behaviour of CPython 3 on the arguments the source passes.
\<close>

subsection \<open>Values\<close>

text \<open>
  A Python \<^verbatim>\<open>str\<close> is a sequence of code points; a \<^verbatim>\<open>bytes\<close> object is a HOL
  \<^typ>\<open>string\<close>, whose characters are exactly the 256 byte values.
\<close>

type_synonym pystr = "nat list"

definition ustr :: "string \<Rightarrow> pystr" where
  "ustr s = map of_char s"

text \<open>
  The exceptions that leave \<^verbatim>\<open>run\<close>. An exception raised inside the \<^verbatim>\<open>try\<close> block never
  leaves it as it is: the handler reads only its description \<^verbatim>\<open>str(e)\<close>, so inside the
  block an exception is represented by that description. A \<^verbatim>\<open>ValueError\<close> of \<^verbatim>\<open>int\<close> is
  caught where it is raised and is the value \<open>None\<close>.
\<close>

datatype py_exn =
    AnsibleError pystr
  | TypeError
  | IndexError

text \<open>
  Three things the source leaves to the interpreter it runs on are parameters of the model:
  the table of non-ASCII decimal digits that \<^verbatim>\<open>int\<close> accepts, the interpreter's limit on
  the number of digits \<^verbatim>\<open>int\<close> converts (\<^verbatim>\<open>sys.get_int_max_str_digits()\<close>, 0 for none), and
  the order in which a \<^verbatim>\<open>set\<close> of strings lays out its elements, which depends on the
  hash seed of the process.
\<close>

record py_env =
  unicode_decimal :: "nat \<Rightarrow> nat option"
  int_max_str_digits :: nat
  set_layout :: "pystr list \<Rightarrow> pystr list"

subsection \<open>Decoding the response body\<close>

text \<open>
  \<^verbatim>\<open>resp.read().decode('utf-8', errors='ignore')\<close>. The decoder reads one scalar value at
  a time. A lead byte announces the length of its sequence; the bytes that follow must be
  continuation bytes, the first of them in a range that excludes overlong forms, surrogates
  and values above U+10FFFF. A malformed sequence is the lead byte with the well-formed
  part of its trail; the error handler decides what happens to it: \<^verbatim>\<open>strict\<close> raises
  \<^verbatim>\<open>UnicodeDecodeError\<close> (here with the reason it gives; the description of the real
  exception also names the codec, the byte and its position), \<^verbatim>\<open>ignore\<close> drops these
  bytes and goes on after them.
\<close>

datatype errors_mode = Strict | Ignore

definition is_cont :: "nat \<Rightarrow> bool" where
  "is_cont c \<longleftrightarrow> 128 \<le> c \<and> c \<le> 191"

definition second_ok :: "nat \<Rightarrow> nat \<Rightarrow> bool" where
  "second_ok b c =
     (if b = 224 then 160 \<le> c \<and> c \<le> 191
      else if b = 237 then 128 \<le> c \<and> c \<le> 159
      else if b = 240 then 144 \<le> c \<and> c \<le> 191
      else if b = 244 then 128 \<le> c \<and> c \<le> 143
      else is_cont c)"

definition seq_len :: "nat \<Rightarrow> nat" where
  "seq_len b =
     (if b < 128 then 1
      else if 194 \<le> b \<and> b \<le> 223 then 2
      else if 224 \<le> b \<and> b \<le> 239 then 3
      else if 240 \<le> b \<and> b \<le> 244 then 4
      else 0)"

definition lead_bits :: "nat \<Rightarrow> nat" where
  "lead_bits b =
     (if b < 128 then b
      else if b \<le> 223 then b - 192
      else if b \<le> 239 then b - 224
      else b - 240)"

definition trail :: "nat \<Rightarrow> nat list \<Rightarrow> nat list" where
  "trail b rest =
     take (seq_len b - 1)
       (case rest of [] \<Rightarrow> []
        | c # cs \<Rightarrow> if second_ok b c then c # takeWhile is_cont cs else [])"

definition scalar :: "nat \<Rightarrow> nat list \<Rightarrow> nat" where
  "scalar b tr = foldl (\<lambda>a c. a * 64 + (c - 128)) (lead_bits b) tr"

definition reason :: "nat \<Rightarrow> nat list \<Rightarrow> pystr" where
  "reason b rest =
     (if seq_len b = 0 then ustr ''invalid start byte''
      else if length rest \<le> length (trail b rest) then ustr ''unexpected end of data''
      else ustr ''invalid continuation byte'')"

fun utf8_units :: "errors_mode \<Rightarrow> nat list \<Rightarrow> pystr + pystr" where
  "utf8_units h [] = Inr []"
| "utf8_units h (b # rest) =
     (if seq_len b \<noteq> 0 \<and> length (trail b rest) = seq_len b - 1
      then (case utf8_units h (drop (length (trail b rest)) rest) of
              Inl e \<Rightarrow> Inl e
            | Inr s \<Rightarrow> Inr (scalar b (trail b rest) # s))
      else (case h of
              Strict \<Rightarrow> Inl (reason b rest)
            | Ignore \<Rightarrow> utf8_units h (drop (length (trail b rest)) rest)))"

definition decode :: "errors_mode \<Rightarrow> string \<Rightarrow> pystr + pystr" where
  "decode h body = utf8_units h (map of_char body)"

subsection \<open>The regular expressions\<close>

text \<open>
  \<^verbatim>\<open>\s\<close> in a \<^verbatim>\<open>str\<close> pattern is Unicode white space: the characters for which
  \<^verbatim>\<open>str.isspace\<close> holds.
\<close>

definition py_isspace :: "nat \<Rightarrow> bool" where
  "py_isspace c \<longleftrightarrow>
     (9 \<le> c \<and> c \<le> 13) \<or> (28 \<le> c \<and> c \<le> 32) \<or> c = 133 \<or> c = 160 \<or> c = 5760
     \<or> (8192 \<le> c \<and> c \<le> 8202) \<or> c = 8232 \<or> c = 8233 \<or> c = 8239 \<or> c = 8287
     \<or> c = 12288"

fun after_literal :: "pystr \<Rightarrow> pystr \<Rightarrow> pystr option" where
  "after_literal [] s = Some s"
| "after_literal (p # ps) [] = None"
| "after_literal (p # ps) (c # cs) = (if p = c then after_literal ps cs else None)"

text \<open>
  One attempt of \<^verbatim>\<open>"name":\s*"([^"]+)"\<close> at the start of \<open>s\<close>: the group and the text
  after the match. Both repetitions are greedy and are followed by a character they cannot
  match, so giving characters back never helps: the white space is skipped whole, and the
  group is the whole run of characters up to the next quote, which must exist.
\<close>

definition match_name_at :: "pystr \<Rightarrow> (pystr \<times> pystr) option" where
  \<open>match_name_at s =
     (case after_literal (ustr ''"name":'') s of
        None \<Rightarrow> None
      | Some r \<Rightarrow>
          (case dropWhile py_isspace r of
             [] \<Rightarrow> None
           | q # r2 \<Rightarrow>
               if q = 34 \<and> takeWhile (\<lambda>c. c \<noteq> 34) r2 \<noteq> [] \<and> dropWhile (\<lambda>c. c \<noteq> 34) r2 \<noteq> []
               then Some (takeWhile (\<lambda>c. c \<noteq> 34) r2, tl (dropWhile (\<lambda>c. c \<noteq> 34) r2))
               else None))\<close>

lemma after_literal_length:
  "after_literal p s = Some r \<Longrightarrow> length r + length p = length s"
  by (induction p s rule: after_literal.induct) (auto split: if_splits)

lemma match_name_at_shorter:
  assumes "match_name_at s = Some (n, rest)"
  shows "length rest < length s"
proof -
  from assms obtain r q r2 where r: "after_literal (ustr ''\"name\":'') s = Some r"
    and d: "dropWhile py_isspace r = q # r2"
    and rest: "rest = tl (dropWhile (\<lambda>c. c \<noteq> 34) r2)"
    by (auto simp: match_name_at_def split: option.splits list.splits if_splits)
  have "length rest \<le> length r2"
    using length_dropWhile_le [of "\<lambda>c. c \<noteq> 34" r2] unfolding rest by simp
  also have "length r2 < length (dropWhile py_isspace r)"
    by (simp add: d)
  also have "\<dots> \<le> length r"
    by (rule length_dropWhile_le)
  also have "\<dots> \<le> length s"
    using after_literal_length [OF r] by simp
  finally show ?thesis .
qed

text \<open>
  \<^verbatim>\<open>re.findall\<close>: the matches from left to right, each search resuming where the last
  match ended; with one group in the pattern, the result lists the groups.
\<close>

function findall_names :: "pystr \<Rightarrow> pystr list" where
  "findall_names s =
     (case match_name_at s of
        Some (n, rest) \<Rightarrow> n # findall_names rest
      | None \<Rightarrow> (case s of [] \<Rightarrow> [] | c # t \<Rightarrow> findall_names t))"
  by pat_completeness auto
termination
  by (relation "measure length") (auto simp: match_name_at_shorter)

declare findall_names.simps [simp del]

text \<open>
  One attempt of \<^verbatim>\<open>/(v[^/]+)/\<close> at the start of \<open>s\<close>, giving the group; and
  \<^verbatim>\<open>re.search\<close>, which tries every start from the left and keeps the first match.
\<close>

definition match_version_at :: "pystr \<Rightarrow> pystr option" where
  "match_version_at s =
     (case after_literal (ustr ''/v'') s of
        None \<Rightarrow> None
      | Some r \<Rightarrow>
          if takeWhile (\<lambda>c. c \<noteq> 47) r \<noteq> [] \<and> dropWhile (\<lambda>c. c \<noteq> 47) r \<noteq> []
          then Some (ustr ''v'' @ takeWhile (\<lambda>c. c \<noteq> 47) r)
          else None)"

fun search_version :: "pystr \<Rightarrow> pystr option" where
  "search_version [] = None"
| "search_version (c # t) =
     (case match_version_at (c # t) of
        Some v \<Rightarrow> Some v
      | None \<Rightarrow> search_version t)"

text \<open>\<^verbatim>\<open>re.split(r'[\.-]', core)\<close>: the pieces between the separators, empty ones included.\<close>

fun re_split :: "pystr \<Rightarrow> pystr list" where
  "re_split [] = [[]]"
| "re_split (c # cs) =
     (if c = 46 \<or> c = 45 then [] # re_split cs
      else (case re_split cs of
              [] \<Rightarrow> [[c]]
            | p # ps \<Rightarrow> (c # p) # ps))"

subsection \<open>Lines 47 to 52: names and versions\<close>

fun collect_versions :: "pystr list \<Rightarrow> pystr list" where
  "collect_versions [] = []"
| "collect_versions (n # ns) =
     (case search_version n of
        Some v \<Rightarrow> v # collect_versions ns
      | None \<Rightarrow> collect_versions ns)"

subsection \<open>The key: \<^verbatim>\<open>ver_key\<close>\<close>

text \<open>
  \<^verbatim>\<open>int(p)\<close> on a string, base ten: white space, an optional sign, digits with single
  underscores between them, white space. The white space is the ASCII one (without the
  separators U+001C to U+001F) and every non-ASCII white space; a digit is an ASCII digit
  or a non-ASCII character with a decimal value. Beyond 640 digits the interpreter's limit
  applies. \<open>None\<close> is the \<^verbatim>\<open>ValueError\<close>.
\<close>

definition int_space :: "nat \<Rightarrow> bool" where
  "int_space c \<longleftrightarrow> (9 \<le> c \<and> c \<le> 13) \<or> c = 32 \<or> (128 \<le> c \<and> py_isspace c)"

definition digit_of :: "py_env \<Rightarrow> nat \<Rightarrow> nat option" where
  "digit_of E c =
     (if 48 \<le> c \<and> c \<le> 57 then Some (c - 48)
      else if c < 128 \<or> py_isspace c then None
      else unicode_decimal E c)"

definition in_number :: "py_env \<Rightarrow> nat \<Rightarrow> bool" where
  "in_number E c \<longleftrightarrow> c = 95 \<or> digit_of E c \<noteq> None"

fun digits_ok :: "py_env \<Rightarrow> bool \<Rightarrow> pystr \<Rightarrow> bool" where
  "digits_ok E after_digit [] = after_digit"
| "digits_ok E after_digit (c # cs) =
     (if c = 95 then after_digit \<and> digits_ok E False cs
      else digit_of E c \<noteq> None \<and> digits_ok E True cs)"

definition over_limit :: "py_env \<Rightarrow> nat \<Rightarrow> bool" where
  "over_limit E n \<longleftrightarrow> 640 < n \<and> 0 < int_max_str_digits E \<and> int_max_str_digits E < n"

definition signed :: "pystr \<Rightarrow> bool" where
  "signed s \<longleftrightarrow> s \<noteq> [] \<and> (hd s = 43 \<or> hd s = 45)"

definition py_int :: "py_env \<Rightarrow> pystr \<Rightarrow> int option" where
  "py_int E s =
     (let s1 = dropWhile int_space s;
          s2 = (if signed s1 then tl s1 else s1);
          num = takeWhile (in_number E) s2;
          ds = List.map_filter (digit_of E) num
      in if digits_ok E False num \<and> list_all int_space (dropWhile (in_number E) s2)
            \<and> \<not> over_limit E (length ds)
         then Some ((if signed s1 \<and> hd s1 = 45 then - 1 else 1)
                    * int (foldl (\<lambda>a d. 10 * a + d) 0 ds))
         else None)"

datatype token = IntTok int | StrTok pystr

definition ver_key :: "py_env \<Rightarrow> pystr \<Rightarrow> token list" where
  "ver_key E v =
     map (\<lambda>p. case py_int E p of Some i \<Rightarrow> IntTok i | None \<Rightarrow> StrTok p)
       (re_split (drop 1 v))"

subsection \<open>Comparing keys\<close>

text \<open>
  The keys are lists, and \<^verbatim>\<open><\<close> on lists looks for the first position where the two
  differ under \<^verbatim>\<open>==\<close>: an integer and a string are never equal, two integers or two
  strings are equal when they are the same. With no such position the shorter list is the
  smaller; otherwise the two items are compared with \<^verbatim>\<open><\<close>, which raises
  \<^verbatim>\<open>TypeError\<close> between an integer and a string. Strings compare by code points.
\<close>

fun str_lt :: "pystr \<Rightarrow> pystr \<Rightarrow> bool" where
  "str_lt [] [] = False"
| "str_lt [] (y # ys) = True"
| "str_lt (x # xs) [] = False"
| "str_lt (x # xs) (y # ys) = (x < y \<or> (x = y \<and> str_lt xs ys))"

fun tok_lt :: "token \<Rightarrow> token \<Rightarrow> py_exn + bool" where
  "tok_lt (IntTok a) (IntTok b) = Inr (a < b)"
| "tok_lt (StrTok a) (StrTok b) = Inr (str_lt a b)"
| "tok_lt (IntTok a) (StrTok b) = Inl TypeError"
| "tok_lt (StrTok a) (IntTok b) = Inl TypeError"

fun key_lt :: "token list \<Rightarrow> token list \<Rightarrow> py_exn + bool" where
  "key_lt [] [] = Inr False"
| "key_lt [] (y # ys) = Inr True"
| "key_lt (x # xs) [] = Inr False"
| "key_lt (x # xs) (y # ys) = (if x = y then key_lt xs ys else tok_lt x y)"

subsection \<open>\<^verbatim>\<open>set\<close> and \<^verbatim>\<open>sorted\<close>\<close>

text \<open>
  \<^verbatim>\<open>set(versions)\<close> adds the elements one by one; adding an element that is already
  there changes nothing. The table is represented by its elements in the order they were
  first added. The order in which the table is iterated is the interpreter's: it is
  \<open>set_layout\<close> of the table, and all that is known of it is that every element comes
  once.
\<close>

definition set_add :: "pystr list \<Rightarrow> pystr \<Rightarrow> pystr list" where
  "set_add tbl x = (if x \<in> set tbl then tbl else tbl @ [x])"

definition py_set :: "pystr list \<Rightarrow> pystr list" where
  "py_set xs = foldl set_add [] xs"

definition layout_ok :: "py_env \<Rightarrow> bool" where
  "layout_ok E \<longleftrightarrow> (\<forall>tbl. mset (set_layout E tbl) = mset tbl)"

text \<open>
  \<^verbatim>\<open>sorted(..., key=..., reverse=True)\<close> reverses the list, sorts it stably in ascending
  order of the keys and reverses the result. The sort stands for \<^verbatim>\<open>list.sort\<close> as an
  insertion sort: each element goes into the sorted part behind everything it is not
  smaller than, and an exception of a comparison ends the sort. The interpreter's own
  algorithm chooses other pairs to compare. Its result is the same whenever no comparison
  raises, since a stable sort has one result; and on two elements it makes the same single
  comparison. The theorems on a result rest on the first, the failing input of claim C2 on
  the second.
\<close>

fun insert_sorted :: "('a \<Rightarrow> token list) \<Rightarrow> 'a \<Rightarrow> 'a list \<Rightarrow> py_exn + 'a list" where
  "insert_sorted key x [] = Inr [x]"
| "insert_sorted key x (y # ys) =
     (case key_lt (key x) (key y) of
        Inl e \<Rightarrow> Inl e
      | Inr True \<Rightarrow> Inr (x # y # ys)
      | Inr False \<Rightarrow>
          (case insert_sorted key x ys of
             Inl e \<Rightarrow> Inl e
           | Inr zs \<Rightarrow> Inr (y # zs)))"

fun sort_from :: "('a \<Rightarrow> token list) \<Rightarrow> 'a list \<Rightarrow> 'a list \<Rightarrow> py_exn + 'a list" where
  "sort_from key acc [] = Inr acc"
| "sort_from key acc (x # xs) =
     (case insert_sorted key x acc of
        Inl e \<Rightarrow> Inl e
      | Inr acc' \<Rightarrow> sort_from key acc' xs)"

definition py_sorted :: "('a \<Rightarrow> token list) \<Rightarrow> bool \<Rightarrow> 'a list \<Rightarrow> py_exn + 'a list" where
  "py_sorted key reverse xs =
     (if reverse
      then (case sort_from key [] (rev xs) of Inl e \<Rightarrow> Inl e | Inr ys \<Rightarrow> Inr (rev ys))
      else sort_from key [] xs)"

subsection \<open>\<^verbatim>\<open>LookupModule.run\<close>\<close>

text \<open>
  Lines 47 to 67, on the decoded text: the names, the versions, the check that there is
  one, the sort of the set, and the first element of the result in a list.
\<close>

definition no_versions :: py_exn where
  "no_versions = AnsibleError (ustr ''No versions found in GCS listing.'')"

definition latest_of :: "py_env \<Rightarrow> pystr list \<Rightarrow> py_exn + pystr list" where
  "latest_of E versions =
     (if versions = [] then Inl no_versions
      else (case py_sorted (ver_key E) True (set_layout E (py_set versions)) of
              Inl e \<Rightarrow> Inl e
            | Inr [] \<Rightarrow> Inl IndexError
            | Inr (v # vs) \<Rightarrow> Inr [v]))"

text \<open>
  Lines 41 to 45. What \<^verbatim>\<open>urlopen\<close> and \<^verbatim>\<open>read\<close> do is the argument \<open>fetched\<close>: the
  description of the exception they raised, or the body they returned. Any exception of the
  block, one of the decoder included, becomes an \<^verbatim>\<open>AnsibleError\<close> with the description
  appended to a fixed text.
\<close>

definition fetch_failed :: "pystr \<Rightarrow> py_exn" where
  "fetch_failed cause = AnsibleError (ustr ''Failed to fetch versions: '' @ cause)"

definition run :: "py_env \<Rightarrow> pystr + string \<Rightarrow> py_exn + pystr list" where
  "run E fetched =
     (case fetched of
        Inl cause \<Rightarrow> Inl (fetch_failed cause)
      | Inr body \<Rightarrow>
          (case decode Ignore body of
             Inl cause \<Rightarrow> Inl (fetch_failed cause)
           | Inr data \<Rightarrow> latest_of E (collect_versions (findall_names data))))"

subsection \<open>Interpreters and listings for the examples\<close>

text \<open>
  Two concrete interpreters: no non-ASCII digits, the default digit limit, and a set that
  is iterated in the order of insertion, or in the opposite order. The listings are bodies
  as the endpoint sends them, cut down to the names.
\<close>

definition env_first :: py_env where
  "env_first =
     \<lparr>unicode_decimal = (\<lambda>c. None), int_max_str_digits = 4300, set_layout = (\<lambda>tbl. tbl)\<rparr>"

definition env_last :: py_env where
  "env_last =
     \<lparr>unicode_decimal = (\<lambda>c. None), int_max_str_digits = 4300, set_layout = rev\<rparr>"

definition listing_plain :: string where
  \<open>listing_plain = ''{"name": "a/v0.3.9/n"}, {"name":"a/v0.3.10/n"}''\<close>

definition listing_three :: string where
  \<open>listing_three = ''{"items": [{"name": "genlayer-node/bin/amd64/v0.3.9/node"}, {"name": "genlayer-node/bin/amd64/v0.3.10/node"}, {"name": "genlayer-node/bin/amd64/v0.3.2/node"}]}''\<close>

definition listing_mixed :: string where
  \<open>listing_mixed = ''{"name": "a/v1.0.0/n"}, {"name": "a/v1.0.rc1/n"}''\<close>

definition listing_signed :: string where
  \<open>listing_signed = ''{"name": "a/v+2/n"}, {"name": "a/v+10/n"}''\<close>

definition listing_repeat :: string where
  \<open>listing_repeat = ''{"name": "a/v0.3.9/n"}, {"name":"a/v0.3.10/n"}, {"name":"a/v0.3.9/m"}''\<close>

definition listing_swapped :: string where
  \<open>listing_swapped = ''{"name":"a/v0.3.10/n"}, {"name":"a/v0.3.9/m"}''\<close>

definition listing_tie_repeat :: string where
  \<open>listing_tie_repeat = ''{"name": "a/v1.0/n"}, {"name": "a/v1-0/n"}, {"name": "a/v1.0/m"}''\<close>

definition listing_tie_single :: string where
  \<open>listing_tie_single = ''{"name": "a/v1-0/n"}, {"name": "a/v1.0/m"}''\<close>

subsection \<open>The words of the claims\<close>

text \<open>
  The claims speak of path segments, of tokens that are fully numeric, and of a version
  that several names carry. \<open>segments\<close> cuts a name at every \<^verbatim>\<open>/\<close>; the segments with a
  \<^verbatim>\<open>/\<close> on both sides are all but the first and the last; a segment looks like a version
  when it is \<^verbatim>\<open>v\<close> and one character or more.
\<close>

fun segments :: "pystr \<Rightarrow> pystr list" where
  "segments [] = [[]]"
| "segments (c # cs) =
     (if c = 47 then [] # segments cs
      else (case segments cs of
              [] \<Rightarrow> [[c]]
            | p # ps \<Rightarrow> (c # p) # ps))"

definition version_like :: "pystr \<Rightarrow> bool" where
  "version_like seg = (case seg of [] \<Rightarrow> False | c # r \<Rightarrow> c = 118 \<and> r \<noteq> [])"

definition first_version_segment :: "pystr \<Rightarrow> pystr option" where
  "first_version_segment n = find version_like (butlast (tl (segments n)))"

text \<open>
  The key as claim C1 words it: a token is an integer if it is made of digits only, and is
  kept as a string otherwise. It is not the key of the source, which asks \<^verbatim>\<open>int\<close>.
\<close>

definition ascii_digit :: "nat \<Rightarrow> bool" where
  "ascii_digit c \<longleftrightarrow> 48 \<le> c \<and> c \<le> 57"

definition decimal :: "pystr \<Rightarrow> nat" where
  "decimal ds = foldl (\<lambda>a d. 10 * a + d) 0 (map (\<lambda>c. c - 48) ds)"

definition spec_token :: "pystr \<Rightarrow> token" where
  "spec_token p =
     (if p \<noteq> [] \<and> list_all ascii_digit p then IntTok (int (decimal p)) else StrTok p)"

definition spec_ver_key :: "pystr \<Rightarrow> token list" where
  "spec_ver_key v = map spec_token (re_split (drop 1 v))"

text \<open>
  The versions of a listing, each kept only where it is first extracted.
\<close>

definition first_seen :: "'a list \<Rightarrow> 'a list" where
  "first_seen vs = rev (remdups (rev vs))"

subsection \<open>An order behind the comparison\<close>

text \<open>
  Where \<^verbatim>\<open><\<close> on two keys returns, it agrees with one fixed linear order: integers
  before strings, integers by value, strings by code points, lists lexicographically.
  \<open>sortable\<close> says that no comparison between the keys of a list raises.
\<close>

fun rank :: "token \<Rightarrow> bool \<times> int \<times> nat list" where
  "rank (IntTok i) = (False, i, [])"
| "rank (StrTok s) = (True, 0, s)"

definition key_rank :: "token list \<Rightarrow> (bool \<times> int \<times> nat list) list" where
  "key_rank k = map rank k"

definition sortable :: "('a \<Rightarrow> token list) \<Rightarrow> 'a list \<Rightarrow> bool" where
  "sortable key xs \<longleftrightarrow> list_all (\<lambda>a. list_all (\<lambda>b. key_lt (key a) (key b) \<noteq> Inl TypeError) xs) xs"

subsection \<open>Properties of the comparison\<close>

lemma str_lt_less: "str_lt a b \<longleftrightarrow> a < b"
  by (induction a b rule: str_lt.induct) simp_all

lemma rank_inj: "rank x = rank y \<longleftrightarrow> x = y"
  by (cases x; cases y) simp_all

lemma key_rank_inj: "key_rank a = key_rank b \<Longrightarrow> a = b"
  unfolding key_rank_def
  by (induction a arbitrary: b) (auto simp: rank_inj)

lemma tok_lt_rank: "tok_lt x y = Inr r \<Longrightarrow> r = (rank x < rank y)"
  by (cases x; cases y) (auto simp: str_lt_less less_prod_def)

lemma tok_lt_exn: "tok_lt x y = Inl e \<Longrightarrow> e = TypeError"
  by (cases x; cases y) auto

lemma key_lt_rank: "key_lt a b = Inr r \<Longrightarrow> r = (key_rank a < key_rank b)"
  unfolding key_rank_def
  by (induction a b arbitrary: r rule: key_lt.induct)
     (auto simp: rank_inj split: if_splits dest: tok_lt_rank)

lemma key_lt_exn: "key_lt a b = Inl e \<Longrightarrow> e = TypeError"
  by (induction a b rule: key_lt.induct) (auto split: if_splits dest: tok_lt_exn)

lemma key_lt_refl: "key_lt k k = Inr False"
  by (induction k) simp_all

lemma tok_lt_sym: "tok_lt x y = Inl e \<Longrightarrow> tok_lt y x = Inl e"
  by (cases x; cases y) auto

lemma key_lt_sym: "key_lt a b = Inl e \<Longrightarrow> key_lt b a = Inl e"
  by (induction a b rule: key_lt.induct) (auto split: if_splits dest: tok_lt_sym)

text \<open>
  Two keys that cannot be compared have nothing between them: a key below \<open>b\<close> and a key
  not below \<open>b\<close> can always be compared.
\<close>

lemma key_lt_between:
  "key_lt a b = Inr True \<Longrightarrow> key_lt c b = Inr False \<Longrightarrow> key_lt a c \<noteq> Inl e"
proof (induction a arbitrary: b c)
  case Nil
  show ?case by (cases c) simp_all
next
  case (Cons x xs)
  from Cons.prems(1) obtain y ys where b: "b = y # ys"
    by (cases b) simp_all
  show ?case
  proof (cases c)
    case Nil
    then show ?thesis by simp
  next
    case c: (Cons z zs)
    show ?thesis
      using Cons.prems Cons.IH [of ys zs] unfolding b c
      by (cases x; cases y; cases z) (auto split: if_splits)
  qed
qed

lemma key_lt_prefix: "key_lt k (k @ t # ts) = Inr True \<and> key_lt (k @ t # ts) k = Inr False"
  by (induction k) simp_all

lemma sortableD:
  "sortable key xs \<Longrightarrow> a \<in> set xs \<Longrightarrow> b \<in> set xs \<Longrightarrow>
     key_lt (key a) (key b) = Inr (key_rank (key a) < key_rank (key b))"
proof -
  assume "sortable key xs" "a \<in> set xs" "b \<in> set xs"
  then have ne: "key_lt (key a) (key b) \<noteq> Inl TypeError"
    by (simp add: sortable_def list_all_iff)
  show ?thesis
  proof (cases "key_lt (key a) (key b)")
    case (Inl e)
    with ne key_lt_exn show ?thesis by blast
  next
    case (Inr r)
    then show ?thesis using key_lt_rank by blast
  qed
qed

lemma sortable_set: "set xs = set ys \<Longrightarrow> sortable key xs = sortable key ys"
  by (simp add: sortable_def list_all_iff)

lemma sortable_insert:
  assumes "sortable key acc" and "\<forall>y\<in>set acc. key_lt (key x) (key y) \<noteq> Inl TypeError"
    and "set zs = insert x (set acc)"
  shows "sortable key zs"
proof -
  have old: "key_lt (key a) (key b) \<noteq> Inl TypeError" if "a \<in> set acc" "b \<in> set acc" for a b
    using sortableD [OF assms(1) that] by simp
  have new: "key_lt (key x) (key b) \<noteq> Inl TypeError" if "b \<in> set acc" for b
    using assms(2) that by blast
  have sym: "key_lt (key a) (key x) \<noteq> Inl TypeError" if "a \<in> set acc" for a
    using new [OF that] key_lt_sym [of "key a" "key x" TypeError] by blast
  have self: "key_lt (key x) (key x) \<noteq> Inl TypeError"
    by (simp add: key_lt_refl)
  have "\<forall>a\<in>insert x (set acc). \<forall>b\<in>insert x (set acc). key_lt (key a) (key b) \<noteq> Inl TypeError"
    using old new sym self by blast
  then show ?thesis
    by (simp only: sortable_def list_all_iff assms(3))
qed

subsection \<open>Properties of the sort\<close>

lemma insert_sorted_Inr:
  assumes "\<forall>y\<in>set ys. key_lt (key x) (key y) = Inr (key_rank (key x) < key_rank (key y))"
  shows "insert_sorted key x ys =
           Inr (takeWhile (\<lambda>y. \<not> key_rank (key x) < key_rank (key y)) ys
                @ x # dropWhile (\<lambda>y. \<not> key_rank (key x) < key_rank (key y)) ys)"
  using assms by (induction ys) auto

lemma sorted_insert_place:
  fixes f :: "'a \<Rightarrow> 'b::linorder"
  assumes "sorted (map f ys)"
  shows "sorted (map f (takeWhile (\<lambda>y. \<not> f x < f y) ys @ x # dropWhile (\<lambda>y. \<not> f x < f y) ys))"
  using assms
proof (induction ys)
  case Nil
  then show ?case by simp
next
  case (Cons y ys)
  show ?case
  proof (cases "f x < f y")
    case True
    with Cons.prems show ?thesis by auto
  next
    case False
    have "sorted (map f ys)" using Cons.prems by simp
    from Cons.IH [OF this] Cons.prems False show ?thesis
      by (auto simp: sorted_append dest: set_takeWhileD set_dropWhileD)
  qed
qed

lemma mset_insert_place:
  "mset (takeWhile P ys @ x # dropWhile P ys) = add_mset x (mset ys)"
proof -
  have "mset (takeWhile P ys) + mset (dropWhile P ys) = mset ys"
    unfolding mset_append [symmetric] takeWhile_dropWhile_id ..
  then show ?thesis by simp
qed

lemma sort_from_Inr:
  assumes "sortable key (acc @ xs)"
  shows "\<exists>zs. sort_from key acc xs = Inr zs \<and> mset zs = mset acc + mset xs
           \<and> (sorted (map (\<lambda>a. key_rank (key a)) acc)
                \<longrightarrow> sorted (map (\<lambda>a. key_rank (key a)) zs))"
  using assms
proof (induction xs arbitrary: acc)
  case Nil
  then show ?case by simp
next
  case (Cons x xs)
  let ?f = "\<lambda>a. key_rank (key a)"
  let ?P = "\<lambda>y. \<not> ?f x < ?f y"
  let ?d = "takeWhile ?P acc @ x # dropWhile ?P acc"
  have ins: "insert_sorted key x acc = Inr ?d"
  proof (rule insert_sorted_Inr, rule ballI)
    fix y assume "y \<in> set acc"
    then show "key_lt (key x) (key y) = Inr (key_rank (key x) < key_rank (key y))"
      by (intro sortableD [OF Cons.prems]) simp_all
  qed
  have m: "mset ?d = add_mset x (mset acc)"
    by (rule mset_insert_place)
  have "set ?d = insert x (set acc)"
    using m by (metis set_mset_add_mset_insert set_mset_mset)
  then have "set (?d @ xs) = set (acc @ x # xs)"
    by (simp only: set_append set_simps) blast
  with Cons.prems have "sortable key (?d @ xs)"
    by (simp add: sortable_def list_all_iff)
  from Cons.IH [OF this] obtain zs where zs: "sort_from key ?d xs = Inr zs"
    and mz: "mset zs = mset ?d + mset xs"
    and sz: "sorted (map ?f ?d) \<longrightarrow> sorted (map ?f zs)"
    by blast
  have sd: "sorted (map ?f acc) \<longrightarrow> sorted (map ?f ?d)"
    using sorted_insert_place [of ?f acc x] by blast
  have "sort_from key acc (x # xs) = Inr zs"
    by (simp add: ins zs)
  moreover have "mset zs = mset acc + mset (x # xs)"
    unfolding mz m by simp
  moreover have "sorted (map ?f acc) \<longrightarrow> sorted (map ?f zs)"
    using sd sz by blast
  ultimately show ?case by blast
qed

lemma sorted_last_max:
  fixes f :: "'a \<Rightarrow> 'b::linorder"
  assumes "sorted (map f zs)" and "w \<in> set zs"
  shows "f w \<le> f (last zs)"
  using assms by (induction zs) (auto split: if_splits)

lemma py_sorted_reverse_first:
  assumes s: "sortable key xs" and ne: "xs \<noteq> []"
  shows "\<exists>v vs. py_sorted key True xs = Inr (v # vs) \<and> v \<in> set xs
           \<and> (\<forall>w\<in>set xs. key_lt (key v) (key w) = Inr False)"
proof -
  let ?f = "\<lambda>a. key_rank (key a)"
  from s have "sortable key ([] @ rev xs)"
    by (simp add: sortable_set [of "rev xs" xs])
  from sort_from_Inr [OF this] obtain zs where zs: "sort_from key [] (rev xs) = Inr zs"
    and m: "mset zs = mset (rev xs)" and so: "sorted (map ?f zs)"
    by auto
  from m have set_eq: "set zs = set xs"
    by (metis mset_rev set_mset_mset)
  with ne have zne: "zs \<noteq> []" by auto
  have "rev (butlast zs @ [last zs]) = last zs # rev (butlast zs)"
    by simp
  then have r: "rev zs = last zs # rev (butlast zs)"
    by (simp only: append_butlast_last_id [OF zne])
  have v: "last zs \<in> set xs"
    using zne set_eq last_in_set by blast
  have "\<forall>w\<in>set xs. key_lt (key (last zs)) (key w) = Inr False"
  proof
    fix w assume w: "w \<in> set xs"
    then have "?f w \<le> ?f (last zs)"
      using sorted_last_max [OF so] set_eq by blast
    then have "\<not> ?f (last zs) < ?f w" by simp
    with sortableD [OF s v w] show "key_lt (key (last zs)) (key w) = Inr False" by simp
  qed
  moreover have "py_sorted key True xs = Inr (rev zs)"
    by (simp add: py_sorted_def zs)
  then have "py_sorted key True xs = Inr (last zs # rev (butlast zs))"
    by (simp only: r)
  ultimately show ?thesis
    using v by blast
qed

lemma insert_sorted_exn: "insert_sorted key x ys = Inl e \<Longrightarrow> e = TypeError"
  by (induction ys) (auto split: sum.splits bool.splits dest: key_lt_exn)

lemma sort_from_exn: "sort_from key acc xs = Inl e \<Longrightarrow> e = TypeError"
  by (induction xs arbitrary: acc) (auto split: sum.splits dest: insert_sorted_exn)

lemma py_sorted_exn: "py_sorted key rv xs = Inl e \<Longrightarrow> e = TypeError"
  by (auto simp: py_sorted_def split: if_splits sum.splits dest: sort_from_exn)

lemma insert_sorted_mset: "insert_sorted key x ys = Inr zs \<Longrightarrow> mset zs = add_mset x (mset ys)"
  by (induction ys arbitrary: zs) (auto split: sum.splits bool.splits)

lemma sort_from_mset: "sort_from key acc xs = Inr zs \<Longrightarrow> mset zs = mset acc + mset xs"
  by (induction xs arbitrary: acc) (auto split: sum.splits dest: insert_sorted_mset)

lemma py_sorted_mset: "py_sorted key rv xs = Inr ys \<Longrightarrow> mset ys = mset xs"
  by (auto simp: py_sorted_def split: if_splits sum.splits dest: sort_from_mset)

text \<open>
  The sort raises exactly when two of the keys cannot be compared: an element that clashes
  with one already placed always meets it, or another one it clashes with, on its way.
\<close>

lemma insert_sorted_clash:
  assumes "sorted (map (\<lambda>a. key_rank (key a)) acc)" and "sortable key acc"
    and "y \<in> set acc" and "key_lt (key x) (key y) = Inl TypeError"
  shows "insert_sorted key x acc = Inl TypeError"
  using assms
proof (induction acc)
  case Nil
  then show ?case by simp
next
  case (Cons y0 rest)
  have st: "sortable key rest"
    using Cons.prems(2) by (auto simp: sortable_def list_all_iff)
  have so: "sorted (map (\<lambda>a. key_rank (key a)) rest)"
    using Cons.prems(1) by simp
  show ?case
  proof (cases "key_lt (key x) (key y0)")
    case (Inl e)
    then show ?thesis using key_lt_exn [OF Inl] by simp
  next
    case (Inr r)
    with Cons.prems(4) have "y \<noteq> y0" by auto
    with Cons.prems(3) have y: "y \<in> set rest" by simp
    show ?thesis
    proof (cases r)
      case True
      have "key_rank (key y0) \<le> key_rank (key y)"
        using Cons.prems(1) y by auto
      then have "key_lt (key y) (key y0) = Inr False"
        using sortableD [OF Cons.prems(2), of y y0] y by simp
      then have "key_lt (key x) (key y) \<noteq> Inl TypeError"
        using Inr True by (intro key_lt_between [of "key x" "key y0"]) simp_all
      with Cons.prems(4) show ?thesis by simp
    next
      case False
      with Inr Cons.IH [OF so st y Cons.prems(4)] show ?thesis by simp
    qed
  qed
qed

lemma sort_from_clash:
  assumes "sorted (map (\<lambda>a. key_rank (key a)) acc)" and "sortable key acc"
    and "\<not> sortable key (acc @ xs)"
  shows "sort_from key acc xs = Inl TypeError"
  using assms
proof (induction xs arbitrary: acc)
  case Nil
  then show ?case by simp
next
  case (Cons x xs)
  let ?f = "\<lambda>a. key_rank (key a)"
  let ?P = "\<lambda>y. \<not> ?f x < ?f y"
  let ?d = "takeWhile ?P acc @ x # dropWhile ?P acc"
  show ?case
  proof (cases "\<forall>y\<in>set acc. key_lt (key x) (key y) \<noteq> Inl TypeError")
    case True
    have v: "\<forall>y\<in>set acc. key_lt (key x) (key y) = Inr (?f x < ?f y)"
    proof
      fix y assume "y \<in> set acc"
      with True have "key_lt (key x) (key y) \<noteq> Inl TypeError" by blast
      then show "key_lt (key x) (key y) = Inr (?f x < ?f y)"
        by (cases "key_lt (key x) (key y)") (auto dest: key_lt_exn key_lt_rank)
    qed
    have ins: "insert_sorted key x acc = Inr ?d"
      by (rule insert_sorted_Inr [OF v])
    have sd: "sorted (map ?f ?d)"
      by (rule sorted_insert_place [OF Cons.prems(1)])
    have "set_mset (mset ?d) = set_mset (add_mset x (mset acc))"
      by (simp only: mset_insert_place)
    then have sets: "set ?d = insert x (set acc)"
      by (simp only: set_mset_mset set_mset_add_mset_insert)
    have td: "sortable key ?d"
      by (rule sortable_insert [OF Cons.prems(2) True sets])
    have "set (?d @ xs) = set (acc @ x # xs)"
      using sets by (simp only: set_append set_simps) blast
    with Cons.prems(3) have "\<not> sortable key (?d @ xs)"
      using sortable_set by blast
    from Cons.IH [OF sd td this] ins show ?thesis by simp
  next
    case False
    then obtain y where "y \<in> set acc" "key_lt (key x) (key y) = Inl TypeError" by blast
    from insert_sorted_clash [OF Cons.prems(1,2) this] show ?thesis by simp
  qed
qed

lemma py_sorted_clash: "py_sorted key rv xs = Inl TypeError \<longleftrightarrow> \<not> sortable key xs"
proof
  assume a: "py_sorted key rv xs = Inl TypeError"
  show "\<not> sortable key xs"
  proof
    assume s: "sortable key xs"
    then have "sortable key ([] @ xs)" "sortable key ([] @ rev xs)"
      by (simp_all add: sortable_set [of "rev xs" xs])
    from sort_from_Inr [OF this(1)] sort_from_Inr [OF this(2)] a show False
      by (auto simp: py_sorted_def split: if_splits)
  qed
next
  assume n: "\<not> sortable key xs"
  then have "\<not> sortable key ([] @ xs)" "\<not> sortable key ([] @ rev xs)"
    by (simp_all add: sortable_set [of "rev xs" xs])
  moreover have "sorted (map (\<lambda>a. key_rank (key a)) [])" "sortable key []"
    by (simp_all add: sortable_def)
  ultimately have "sort_from key [] xs = Inl TypeError" "sort_from key [] (rev xs) = Inl TypeError"
    using sort_from_clash by blast+
  then show "py_sorted key rv xs = Inl TypeError"
    by (simp add: py_sorted_def)
qed

subsection \<open>Properties of the set\<close>

lemma set_add_set: "set (set_add tbl x) = insert x (set tbl)"
  by (auto simp: set_add_def)

lemma set_foldl_set_add: "set (foldl set_add tbl xs) = set tbl \<union> set xs"
  by (induction xs arbitrary: tbl) (simp_all add: set_add_set)

lemma distinct_foldl_set_add: "distinct tbl \<Longrightarrow> distinct (foldl set_add tbl xs)"
  by (induction xs arbitrary: tbl) (simp_all add: set_add_def)

lemma set_py_set: "set (py_set xs) = set xs"
  by (simp add: py_set_def set_foldl_set_add)

lemma distinct_py_set: "distinct (py_set xs)"
  by (simp add: py_set_def distinct_foldl_set_add)

lemma layout_set: "layout_ok E \<Longrightarrow> set (set_layout E tbl) = set tbl"
  unfolding layout_ok_def by (metis set_mset_mset)

lemma layout_distinct: "layout_ok E \<Longrightarrow> distinct (set_layout E tbl) = distinct tbl"
  unfolding layout_ok_def by (metis mset_eq_imp_distinct_iff)

lemma remdups_snoc: "remdups (ys @ [x]) = filter (\<lambda>y. y \<noteq> x) (remdups ys) @ [x]"
  by (induction ys) auto

lemma first_seen_Cons: "first_seen (x # xs) = x # filter (\<lambda>y. y \<noteq> x) (first_seen xs)"
  by (simp add: first_seen_def remdups_snoc rev_filter)

lemma first_seen_Nil: "first_seen [] = []"
  by (simp add: first_seen_def)

lemma first_seen_empty: "first_seen vs = [] \<longleftrightarrow> vs = []"
  by (cases vs) (simp_all add: first_seen_Nil first_seen_Cons)

lemma foldl_set_add_first_seen:
  "foldl set_add acc xs = acc @ filter (\<lambda>x. x \<notin> set acc) (first_seen xs)"
proof (induction xs arbitrary: acc)
  case Nil
  then show ?case by (simp add: first_seen_Nil)
next
  case (Cons x xs)
  have step: "foldl set_add acc (x # xs) = foldl set_add (set_add acc x) xs"
    by simp
  show ?case
  proof (cases "x \<in> set acc")
    case True
    then have a: "set_add acc x = acc"
      by (simp add: set_add_def)
    from True have "filter (\<lambda>y. y \<notin> set acc) (filter (\<lambda>y. y \<noteq> x) (first_seen xs))
                 = filter (\<lambda>y. y \<notin> set acc) (first_seen xs)"
      by (auto intro: filter_cong)
    with True have "filter (\<lambda>y. y \<notin> set acc) (first_seen (x # xs))
                 = filter (\<lambda>y. y \<notin> set acc) (first_seen xs)"
      by (simp add: first_seen_Cons)
    then show ?thesis
      by (simp only: step a Cons.IH)
  next
    case False
    then have a: "set_add acc x = acc @ [x]"
      by (simp add: set_add_def)
    have "filter (\<lambda>y. y \<notin> set (acc @ [x])) (first_seen xs)
            = filter (\<lambda>y. y \<notin> set acc) (filter (\<lambda>y. y \<noteq> x) (first_seen xs))"
      by (auto intro: filter_cong)
    with False have "(acc @ [x]) @ filter (\<lambda>y. y \<notin> set (acc @ [x])) (first_seen xs)
            = acc @ filter (\<lambda>y. y \<notin> set acc) (first_seen (x # xs))"
      by (simp add: first_seen_Cons)
    then show ?thesis
      by (simp only: step a Cons.IH)
  qed
qed

lemma py_set_first_seen: "py_set vs = first_seen vs"
  by (simp add: py_set_def foldl_set_add_first_seen)

lemma count_list_distinct: "distinct xs \<Longrightarrow> x \<in> set xs \<Longrightarrow> count_list xs x = 1"
  by (induction xs) auto

subsection \<open>Lines 53 to 67\<close>

lemma latest_of_maximum:
  assumes ok: "layout_ok E" and ne: "vs \<noteq> []" and s: "sortable (ver_key E) vs"
  shows "\<exists>v. latest_of E vs = Inr [v] \<and> v \<in> set vs
           \<and> (\<forall>w\<in>set vs. key_lt (ver_key E v) (ver_key E w) = Inr False)"
proof -
  let ?c = "set_layout E (py_set vs)"
  have c: "set ?c = set vs"
    by (simp add: layout_set [OF ok] set_py_set)
  with ne have "?c \<noteq> []" by auto
  moreover have "sortable (ver_key E) ?c"
    using s sortable_set [OF c] by simp
  ultimately obtain v rest where "py_sorted (ver_key E) True ?c = Inr (v # rest)" "v \<in> set ?c"
    "\<forall>w\<in>set ?c. key_lt (ver_key E v) (ver_key E w) = Inr False"
    using py_sorted_reverse_first by blast
  with c ne show ?thesis
    by (simp add: latest_of_def)
qed

lemma latest_of_member:
  assumes "layout_ok E" and "latest_of E vs = Inr r"
  shows "\<exists>v. r = [v] \<and> v \<in> set vs"
proof -
  from assms(2) obtain v rest where s: "py_sorted (ver_key E) True (set_layout E (py_set vs)) = Inr (v # rest)"
    and r: "r = [v]"
    by (auto simp: latest_of_def split: if_splits sum.splits list.splits)
  have "set (v # rest) = set (set_layout E (py_set vs))"
    using py_sorted_mset [OF s] by (metis set_mset_mset)
  also have "\<dots> = set vs"
    by (simp add: layout_set [OF assms(1)] set_py_set)
  finally show ?thesis using r by auto
qed

lemma latest_of_clash:
  assumes "layout_ok E"
  shows "latest_of E vs = Inl TypeError \<longleftrightarrow> \<not> sortable (ver_key E) vs"
proof (cases "vs = []")
  case True
  then show ?thesis by (simp add: latest_of_def no_versions_def sortable_def)
next
  case False
  let ?c = "set_layout E (py_set vs)"
  have c: "set ?c = set vs"
    by (simp add: layout_set [OF assms] set_py_set)
  have "latest_of E vs = Inl TypeError \<longleftrightarrow> py_sorted (ver_key E) True ?c = Inl TypeError"
    using False by (auto simp: latest_of_def split: sum.splits list.splits dest: py_sorted_mset)
  also have "\<dots> \<longleftrightarrow> \<not> sortable (ver_key E) ?c"
    by (rule py_sorted_clash)
  also have "\<dots> \<longleftrightarrow> \<not> sortable (ver_key E) vs"
    using sortable_set [OF c] by simp
  finally show ?thesis .
qed

lemma latest_of_no_versions: "latest_of E vs = Inl no_versions \<longleftrightarrow> vs = []"
  by (auto simp: latest_of_def no_versions_def split: sum.splits list.splits dest: py_sorted_exn)

lemma latest_of_first_seen:
  assumes "first_seen vs = first_seen vs'"
  shows "latest_of E vs = latest_of E vs'"
proof -
  have "vs = [] \<longleftrightarrow> vs' = []"
    using assms first_seen_empty by metis
  then show ?thesis
    using assms by (simp add: latest_of_def py_set_first_seen)
qed

text \<open>
  When no two versions have the same key, the outcome depends on the set of versions only:
  neither on how often nor on where a version occurs in the listing.
\<close>

lemma order_of_names_irrelevant:
  assumes ok: "layout_ok E" and se: "set vs = set vs'" and inj: "inj_on (ver_key E) (set vs)"
  shows "latest_of E vs = latest_of E vs'"
proof (cases "sortable (ver_key E) vs")
  case False
  moreover from False have "\<not> sortable (ver_key E) vs'"
    using sortable_set [OF se] by simp
  ultimately have "latest_of E vs = Inl TypeError" "latest_of E vs' = Inl TypeError"
    using latest_of_clash [OF ok] by blast+
  then show ?thesis by simp
next
  case True
  then have s': "sortable (ver_key E) vs'"
    using sortable_set [OF se] by simp
  show ?thesis
  proof (cases "vs = []")
    case True
    with se show ?thesis by simp
  next
    case False
    with se have ne': "vs' \<noteq> []" by auto
    from latest_of_maximum [OF ok False True] obtain v where v: "latest_of E vs = Inr [v]"
      "v \<in> set vs" "\<forall>w\<in>set vs. key_lt (ver_key E v) (ver_key E w) = Inr False" by blast
    from latest_of_maximum [OF ok ne' s'] obtain v' where v': "latest_of E vs' = Inr [v']"
      "v' \<in> set vs'" "\<forall>w\<in>set vs'. key_lt (ver_key E v') (ver_key E w) = Inr False" by blast
    from v v' se have "key_lt (ver_key E v) (ver_key E v') = Inr False"
      "key_lt (ver_key E v') (ver_key E v) = Inr False" by auto
    moreover have "key_lt (ver_key E v) (ver_key E v')
                     = Inr (key_rank (ver_key E v) < key_rank (ver_key E v'))"
      "key_lt (ver_key E v') (ver_key E v)
                     = Inr (key_rank (ver_key E v') < key_rank (ver_key E v))"
      using sortableD [OF True] v(2) v'(2) se by auto
    ultimately have "key_rank (ver_key E v) = key_rank (ver_key E v')"
      by auto
    then have "ver_key E v = ver_key E v'"
      by (rule key_rank_inj)
    with inj v(2) v'(2) se have "v = v'"
      by (auto dest: inj_onD)
    with v(1) v'(1) show ?thesis by simp
  qed
qed

text \<open>
  In general two listings with the same set of versions return versions with the same key,
  when they return: the same version if no other version has that key, or if the versions
  are first extracted in the same order.
\<close>

lemma latest_of_same_set:
  assumes ok: "layout_ok E" and se: "set vs = set vs'" and r: "latest_of E vs' = Inr r'"
  shows "\<exists>v v'. r' = [v'] \<and> latest_of E vs = Inr [v] \<and> v \<in> set vs \<and> v' \<in> set vs
           \<and> ver_key E v = ver_key E v'
           \<and> (\<forall>w\<in>set vs. key_lt (ver_key E v) (ver_key E w) = Inr False)
           \<and> (inj_on (ver_key E) (set vs) \<or> first_seen vs = first_seen vs' \<longrightarrow> v = v')"
proof -
  from r have ne': "vs' \<noteq> []"
    by (auto simp: latest_of_def)
  with se have ne: "vs \<noteq> []" by auto
  from r have s': "sortable (ver_key E) vs'"
    using latest_of_clash [OF ok, of vs'] by auto
  then have s: "sortable (ver_key E) vs"
    using sortable_set [OF se] by simp
  from latest_of_maximum [OF ok ne s] obtain v where v: "latest_of E vs = Inr [v]"
    "v \<in> set vs" "\<forall>w\<in>set vs. key_lt (ver_key E v) (ver_key E w) = Inr False" by blast
  from latest_of_maximum [OF ok ne' s'] obtain v' where v': "latest_of E vs' = Inr [v']"
    "v' \<in> set vs'" "\<forall>w\<in>set vs'. key_lt (ver_key E v') (ver_key E w) = Inr False" by blast
  from v'(1) r have r': "r' = [v']" by simp
  from v'(2) se have m': "v' \<in> set vs" by simp
  from v v' se have "key_lt (ver_key E v) (ver_key E v') = Inr False"
    "key_lt (ver_key E v') (ver_key E v) = Inr False" by auto
  moreover have "key_lt (ver_key E v) (ver_key E v')
                   = Inr (key_rank (ver_key E v) < key_rank (ver_key E v'))"
    "key_lt (ver_key E v') (ver_key E v)
                   = Inr (key_rank (ver_key E v') < key_rank (ver_key E v))"
    using sortableD [OF s] v(2) m' by auto
  ultimately have "key_rank (ver_key E v) = key_rank (ver_key E v')"
    by auto
  then have k: "ver_key E v = ver_key E v'"
    by (rule key_rank_inj)
  have same: "v = v'" if "inj_on (ver_key E) (set vs) \<or> first_seen vs = first_seen vs'"
    using that
  proof
    assume "inj_on (ver_key E) (set vs)"
    with k v(2) m' show ?thesis by (auto dest: inj_onD)
  next
    assume "first_seen vs = first_seen vs'"
    from latest_of_first_seen [OF this, of E] v(1) v'(1) show ?thesis by simp
  qed
  from r' v m' k same show ?thesis by blast
qed

subsection \<open>The \<^verbatim>\<open>try\<close> block\<close>

lemma utf8_units_ignore: "\<exists>data. utf8_units Ignore bs = Inr data"
  by (induction Ignore bs rule: utf8_units.induct) (auto split: sum.splits)

lemma decode_ignore: "\<exists>data. decode Ignore body = Inr data"
  by (simp add: decode_def utf8_units_ignore)

lemma utf8_units_ascii: "\<forall>b\<in>set bs. b < 128 \<Longrightarrow> utf8_units h bs = Inr bs"
  by (induction bs) (simp_all add: seq_len_def trail_def scalar_def lead_bits_def)

lemma decode_ascii: "\<forall>c\<in>set body. (of_char c :: nat) < 128 \<Longrightarrow> decode h body = Inr (ustr body)"
  by (simp add: decode_def ustr_def utf8_units_ascii)

lemma fetch_failed_not_no_versions: "fetch_failed cause \<noteq> no_versions"
  by (simp add: fetch_failed_def no_versions_def ustr_def)

lemma run_type_error:
  assumes "layout_ok E" and "decode Ignore body = Inr data"
  shows "run E (Inr body) = Inl TypeError
           \<longleftrightarrow> \<not> sortable (ver_key E) (collect_versions (findall_names data))"
  using assms by (simp add: run_def latest_of_clash)

subsection \<open>Reading concrete listings\<close>

text \<open>
  \<^verbatim>\<open>int\<close> on a run of ASCII digits, with or without a plus sign, or on a token that starts
  with an ASCII letter, does not depend on the interpreter.
\<close>

lemma layout_ok_env_first: "layout_ok env_first"
  by (simp add: layout_ok_def env_first_def)

lemma layout_ok_env_last: "layout_ok env_last"
  by (simp add: layout_ok_def env_last_def)

lemma digit_of_ascii: "ascii_digit c \<Longrightarrow> digit_of E c = Some (c - 48)"
  by (simp add: digit_of_def ascii_digit_def)

lemma digits_ok_all: "\<forall>c\<in>set ds. ascii_digit c \<Longrightarrow> digits_ok E b ds \<longleftrightarrow> b \<or> ds \<noteq> []"
  by (induction ds arbitrary: b) (auto simp: digit_of_ascii ascii_digit_def)

lemma map_filter_digits:
  "\<forall>c\<in>set ds. ascii_digit c \<Longrightarrow> List.map_filter (digit_of E) ds = map (\<lambda>c. c - 48) ds"
  by (induction ds) (simp_all add: List.map_filter_simps digit_of_ascii)

lemma number_run:
  assumes "\<forall>c\<in>set ds. ascii_digit c"
  shows "takeWhile (in_number E) ds = ds" and "dropWhile (in_number E) ds = []"
  using assms by (simp_all add: in_number_def digit_of_ascii)

lemma py_int_digits:
  assumes ne: "ds \<noteq> []" and d: "\<forall>c\<in>set ds. ascii_digit c" and len: "length ds \<le> 640"
  shows "py_int E ds = Some (int (decimal ds))"
proof -
  from ne obtain c r where ds: "ds = c # r" by (cases ds) auto
  with d have c: "ascii_digit c" by simp
  then have sp: "dropWhile int_space ds = ds"
    by (simp add: ds int_space_def ascii_digit_def)
  from c have sg: "\<not> signed ds"
    by (auto simp: ds signed_def ascii_digit_def)
  have ol: "\<not> over_limit E (length ds)"
    using len by (simp add: over_limit_def)
  show ?thesis
    unfolding py_int_def Let_def sp
    using sg ol ne
    by (simp add: number_run [OF d] digits_ok_all [OF d] map_filter_digits [OF d] decimal_def)
qed

lemma py_int_plus_digits:
  assumes ne: "ds \<noteq> []" and d: "\<forall>c\<in>set ds. ascii_digit c" and len: "length ds \<le> 640"
  shows "py_int E (43 # ds) = Some (int (decimal ds))"
proof -
  have sp: "dropWhile int_space (43 # ds) = 43 # ds"
    by (simp add: int_space_def)
  have sg: "signed (43 # ds)"
    by (simp add: signed_def)
  have ol: "\<not> over_limit E (length ds)"
    using len by (simp add: over_limit_def)
  show ?thesis
    unfolding py_int_def Let_def sp
    using sg ol ne
    by (simp add: number_run [OF d] digits_ok_all [OF d] map_filter_digits [OF d] decimal_def)
qed

lemma py_int_letter:
  assumes "58 \<le> c" and "c < 128"
  shows "py_int E (c # r) = None"
proof -
  have sp: "dropWhile int_space (c # r) = c # r"
    using assms by (simp add: int_space_def)
  have sg: "\<not> signed (c # r)"
    using assms by (auto simp: signed_def)
  have dg: "digit_of E c = None"
    using assms by (simp add: digit_of_def)
  have "\<not> digits_ok E False (takeWhile (in_number E) (c # r))"
    using dg by (simp add: in_number_def)
  then show ?thesis
    unfolding py_int_def Let_def sp using sg by simp
qed

lemmas read_text = findall_names.simps match_name_at_def match_version_at_def ustr_def
  py_isspace_def

lemmas read_key = ver_key_def ustr_def py_int_digits py_int_plus_digits py_int_letter
  ascii_digit_def decimal_def

lemma key_v039: "ver_key E (ustr ''v0.3.9'') = [IntTok 0, IntTok 3, IntTok 9]"
  by (simp add: read_key)

lemma key_v0310: "ver_key E (ustr ''v0.3.10'') = [IntTok 0, IntTok 3, IntTok 10]"
  by (simp add: read_key)

lemma key_v032: "ver_key E (ustr ''v0.3.2'') = [IntTok 0, IntTok 3, IntTok 2]"
  by (simp add: read_key)

lemma key_v100: "ver_key E (ustr ''v1.0.0'') = [IntTok 1, IntTok 0, IntTok 0]"
  by (simp add: read_key)

lemma key_v100rc1:
  "ver_key E (ustr ''v1.0.0-rc1'') = [IntTok 1, IntTok 0, IntTok 0, StrTok (ustr ''rc1'')]"
  by (simp add: read_key)

lemma key_v10rc1: "ver_key E (ustr ''v1.0.rc1'') = [IntTok 1, IntTok 0, StrTok (ustr ''rc1'')]"
  by (simp add: read_key)

lemma versions_listing_plain:
  "decode Ignore listing_plain = Inr (ustr listing_plain)"
  "collect_versions (findall_names (ustr listing_plain)) = [ustr ''v0.3.9'', ustr ''v0.3.10'']"
proof -
  show "decode Ignore listing_plain = Inr (ustr listing_plain)"
    by (rule decode_ascii) (simp add: listing_plain_def)
  have "findall_names (ustr listing_plain) = [ustr ''a/v0.3.9/n'', ustr ''a/v0.3.10/n'']"
    by (simp add: listing_plain_def read_text)
  then show "collect_versions (findall_names (ustr listing_plain))
               = [ustr ''v0.3.9'', ustr ''v0.3.10'']"
    by (simp add: read_text)
qed

lemma decode_listing_three: "decode Ignore listing_three = Inr (ustr listing_three)"
  by (rule decode_ascii) (simp add: listing_three_def)

lemma names_listing_three:
  "findall_names (ustr listing_three) =
     [ustr ''genlayer-node/bin/amd64/v0.3.9/node'',
      ustr ''genlayer-node/bin/amd64/v0.3.10/node'',
      ustr ''genlayer-node/bin/amd64/v0.3.2/node'']"
  by (simp add: listing_three_def read_text)

lemma versions_listing_mixed:
  "decode Ignore listing_mixed = Inr (ustr listing_mixed)"
  "collect_versions (findall_names (ustr listing_mixed)) = [ustr ''v1.0.0'', ustr ''v1.0.rc1'']"
proof -
  show "decode Ignore listing_mixed = Inr (ustr listing_mixed)"
    by (rule decode_ascii) (simp add: listing_mixed_def)
  have "findall_names (ustr listing_mixed) = [ustr ''a/v1.0.0/n'', ustr ''a/v1.0.rc1/n'']"
    by (simp add: listing_mixed_def read_text)
  then show "collect_versions (findall_names (ustr listing_mixed))
               = [ustr ''v1.0.0'', ustr ''v1.0.rc1'']"
    by (simp add: read_text)
qed

lemma versions_listing_signed:
  "decode Ignore listing_signed = Inr (ustr listing_signed)"
  "collect_versions (findall_names (ustr listing_signed)) = [ustr ''v+2'', ustr ''v+10'']"
proof -
  show "decode Ignore listing_signed = Inr (ustr listing_signed)"
    by (rule decode_ascii) (simp add: listing_signed_def)
  have "findall_names (ustr listing_signed) = [ustr ''a/v+2/n'', ustr ''a/v+10/n'']"
    by (simp add: listing_signed_def read_text)
  then show "collect_versions (findall_names (ustr listing_signed))
               = [ustr ''v+2'', ustr ''v+10'']"
    by (simp add: read_text)
qed

lemma versions_listing_repeat:
  "decode Ignore listing_repeat = Inr (ustr listing_repeat)"
  "collect_versions (findall_names (ustr listing_repeat))
     = [ustr ''v0.3.9'', ustr ''v0.3.10'', ustr ''v0.3.9'']"
proof -
  show "decode Ignore listing_repeat = Inr (ustr listing_repeat)"
    by (rule decode_ascii) (simp add: listing_repeat_def)
  have "findall_names (ustr listing_repeat)
          = [ustr ''a/v0.3.9/n'', ustr ''a/v0.3.10/n'', ustr ''a/v0.3.9/m'']"
    by (simp add: listing_repeat_def read_text)
  then show "collect_versions (findall_names (ustr listing_repeat))
               = [ustr ''v0.3.9'', ustr ''v0.3.10'', ustr ''v0.3.9'']"
    by (simp add: read_text)
qed

lemma versions_listing_swapped:
  "decode Ignore listing_swapped = Inr (ustr listing_swapped)"
  "collect_versions (findall_names (ustr listing_swapped)) = [ustr ''v0.3.10'', ustr ''v0.3.9'']"
proof -
  show "decode Ignore listing_swapped = Inr (ustr listing_swapped)"
    by (rule decode_ascii) (simp add: listing_swapped_def)
  have "findall_names (ustr listing_swapped) = [ustr ''a/v0.3.10/n'', ustr ''a/v0.3.9/m'']"
    by (simp add: listing_swapped_def read_text)
  then show "collect_versions (findall_names (ustr listing_swapped))
               = [ustr ''v0.3.10'', ustr ''v0.3.9'']"
    by (simp add: read_text)
qed

lemma versions_listing_tie_repeat:
  "decode Ignore listing_tie_repeat = Inr (ustr listing_tie_repeat)"
  "collect_versions (findall_names (ustr listing_tie_repeat))
     = [ustr ''v1.0'', ustr ''v1-0'', ustr ''v1.0'']"
proof -
  show "decode Ignore listing_tie_repeat = Inr (ustr listing_tie_repeat)"
    by (rule decode_ascii) (simp add: listing_tie_repeat_def)
  have "findall_names (ustr listing_tie_repeat)
          = [ustr ''a/v1.0/n'', ustr ''a/v1-0/n'', ustr ''a/v1.0/m'']"
    by (simp add: listing_tie_repeat_def read_text)
  then show "collect_versions (findall_names (ustr listing_tie_repeat))
               = [ustr ''v1.0'', ustr ''v1-0'', ustr ''v1.0'']"
    by (simp add: read_text)
qed

lemma versions_listing_tie_single:
  "decode Ignore listing_tie_single = Inr (ustr listing_tie_single)"
  "collect_versions (findall_names (ustr listing_tie_single)) = [ustr ''v1-0'', ustr ''v1.0'']"
proof -
  show "decode Ignore listing_tie_single = Inr (ustr listing_tie_single)"
    by (rule decode_ascii) (simp add: listing_tie_single_def)
  have "findall_names (ustr listing_tie_single) = [ustr ''a/v1-0/n'', ustr ''a/v1.0/m'']"
    by (simp add: listing_tie_single_def read_text)
  then show "collect_versions (findall_names (ustr listing_tie_single))
               = [ustr ''v1-0'', ustr ''v1.0'']"
    by (simp add: read_text)
qed

lemma same_set_swapped:
  "set (collect_versions (findall_names (ustr listing_repeat)))
     = set (collect_versions (findall_names (ustr listing_swapped)))"
  unfolding versions_listing_repeat(2) versions_listing_swapped(2) by auto

lemma distinct_keys_repeat:
  "inj_on (ver_key env_last) (set (collect_versions (findall_names (ustr listing_repeat))))"
  unfolding versions_listing_repeat(2)
proof (rule inj_onI)
  fix a b
  assume "a \<in> set [ustr ''v0.3.9'', ustr ''v0.3.10'', ustr ''v0.3.9'']"
    and "b \<in> set [ustr ''v0.3.9'', ustr ''v0.3.10'', ustr ''v0.3.9'']"
    and "ver_key env_last a = ver_key env_last b"
  then show "a = b"
    by (auto simp: key_v039 key_v0310)
qed

lemma latest_tie:
  "latest_of env_last [ustr ''v1.0'', ustr ''v1-0'', ustr ''v1.0''] = Inr [ustr ''v1-0'']"
  "latest_of env_last [ustr ''v1-0'', ustr ''v1.0''] = Inr [ustr ''v1.0'']"
  by (simp_all add: latest_of_def env_last_def py_set_def set_add_def py_sorted_def read_key)

lemma latest_swapped:
  "latest_of env_last [ustr ''v0.3.10'', ustr ''v0.3.9''] = Inr [ustr ''v0.3.10'']"
  by (simp add: latest_of_def env_last_def py_set_def set_add_def py_sorted_def read_key)

lemma run_listing_swapped: "run env_last (Inr listing_swapped) = Inr [ustr ''v0.3.10'']"
  by (simp add: run_def versions_listing_swapped latest_swapped)

lemma latest_signed:
  "latest_of env_first [ustr ''v+2'', ustr ''v+10''] = Inr [ustr ''v+10'']"
  "latest_of env_last [ustr ''v+2'', ustr ''v+10''] = Inr [ustr ''v+10'']"
  by (simp_all add: latest_of_def env_first_def env_last_def py_set_def set_add_def
        py_sorted_def read_key)

lemma latest_plain:
  "latest_of env_first [ustr ''v0.3.9'', ustr ''v0.3.10''] = Inr [ustr ''v0.3.10'']"
  by (simp add: latest_of_def env_first_def py_set_def set_add_def py_sorted_def read_key)

lemma run_listing_plain: "run env_first (Inr listing_plain) = Inr [ustr ''v0.3.10'']"
  by (simp add: run_def versions_listing_plain latest_plain)

subsection \<open>The version of a name\<close>

lemma segments_split:
  "segments s = takeWhile (\<lambda>c. c \<noteq> 47) s
     # (case dropWhile (\<lambda>c. c \<noteq> 47) s of [] \<Rightarrow> [] | c # r \<Rightarrow> segments r)"
  by (induction s) (auto split: list.splits)

lemma segments_nonempty: "segments s \<noteq> []"
  by (metis segments_split list.distinct(1))

lemma hd_segments: "hd (segments s) = takeWhile (\<lambda>c. c \<noteq> 47) s"
  by (metis segments_split list.sel(1))

lemma tl_segments:
  "tl (segments s) = (case dropWhile (\<lambda>c. c \<noteq> 47) s of [] \<Rightarrow> [] | c # r \<Rightarrow> segments r)"
  by (metis segments_split list.sel(3))

lemma match_version_at_Nil: "match_version_at [] = None"
  by (simp add: match_version_at_def ustr_def)

lemma match_version_at_other: "c \<noteq> 47 \<Longrightarrow> match_version_at (c # t) = None"
  by (simp add: match_version_at_def ustr_def)

lemma match_version_at_slash:
  "match_version_at (47 # t) =
     (if version_like (takeWhile (\<lambda>c. c \<noteq> 47) t) \<and> dropWhile (\<lambda>c. c \<noteq> 47) t \<noteq> []
      then Some (takeWhile (\<lambda>c. c \<noteq> 47) t) else None)"
  by (cases t) (auto simp: match_version_at_def ustr_def version_like_def)

lemma find_inner_slash:
  "find version_like (butlast (segments t)) =
     (if version_like (takeWhile (\<lambda>c. c \<noteq> 47) t) \<and> dropWhile (\<lambda>c. c \<noteq> 47) t \<noteq> []
      then Some (takeWhile (\<lambda>c. c \<noteq> 47) t)
      else find version_like (butlast (tl (segments t))))"
proof -
  have s: "segments t = takeWhile (\<lambda>c. c \<noteq> 47) t # tl (segments t)"
    by (metis hd_segments segments_nonempty list.collapse)
  have e: "tl (segments t) = [] \<longleftrightarrow> dropWhile (\<lambda>c. c \<noteq> 47) t = []"
    by (auto simp: tl_segments segments_nonempty simp del: dropWhile_eq_Nil_conv
          split: list.splits)
  show ?thesis
  proof (cases "tl (segments t) = []")
    case True
    with e have "dropWhile (\<lambda>c. c \<noteq> 47) t = []" by blast
    with True show ?thesis
      by (subst s) (simp del: dropWhile_eq_Nil_conv)
  next
    case False
    with e have "dropWhile (\<lambda>c. c \<noteq> 47) t \<noteq> []" by blast
    with False show ?thesis
      by (subst s) (simp del: dropWhile_eq_Nil_conv)
  qed
qed

lemma search_version_segments: "search_version s = first_version_segment s"
  unfolding first_version_segment_def
proof (induction s)
  case Nil
  then show ?case by simp
next
  case (Cons c t)
  show ?case
  proof (cases "c = 47")
    case True
    then show ?thesis
      using Cons.IH by (simp add: match_version_at_slash find_inner_slash)
  next
    case False
    then show ?thesis
      using Cons.IH by (auto simp: match_version_at_other split: list.splits)
  qed
qed

lemma collect_versions_map_filter: "collect_versions ns = List.map_filter search_version ns"
  by (induction ns) (auto simp: List.map_filter_simps split: option.splits)

lemma match_version_at_shape:
  "match_version_at s = Some v \<Longrightarrow> \<exists>rest. v = 118 # rest \<and> rest \<noteq> [] \<and> 47 \<notin> set rest"
  by (auto simp: match_version_at_def ustr_def split: option.splits if_splits dest: set_takeWhileD)

lemma search_version_shape:
  "search_version n = Some v \<Longrightarrow> \<exists>rest. v = 118 # rest \<and> rest \<noteq> [] \<and> 47 \<notin> set rest"
  by (induction n) (auto split: option.splits dest: match_version_at_shape)

lemma collect_versions_shape:
  "v \<in> set (collect_versions ns) \<Longrightarrow> \<exists>rest. v = 118 # rest \<and> rest \<noteq> [] \<and> 47 \<notin> set rest"
  by (induction ns) (auto split: option.splits dest: search_version_shape)

section \<open>The claims\<close>

text \<open>
  Claim C1, as it is written, fails. It takes a token for an integer only when the token is
  fully numeric; the source takes whatever \<^verbatim>\<open>int\<close> accepts. For a listing with the versions
  \<^verbatim>\<open>v+2\<close> and \<^verbatim>\<open>v+10\<close> the claim's tokens are the strings \<^verbatim>\<open>+2\<close> and \<^verbatim>\<open>+10\<close>, which
  puts \<^verbatim>\<open>v+2\<close> on top; \<^verbatim>\<open>run\<close> compares 2 and 10 and returns \<^verbatim>\<open>v+10\<close>.
\<close>

theorem fully_numeric_counterexample:
  "run env_first (Inr listing_signed) = Inr [ustr ''v+10'']
     \<and> run env_last (Inr listing_signed) = Inr [ustr ''v+10'']
     \<and> decode Ignore listing_signed = Inr (ustr listing_signed)
     \<and> collect_versions (findall_names (ustr listing_signed)) = [ustr ''v+2'', ustr ''v+10'']
     \<and> spec_ver_key (ustr ''v+2'') = [StrTok (ustr ''+2'')]
     \<and> spec_ver_key (ustr ''v+10'') = [StrTok (ustr ''+10'')]
     \<and> key_lt (spec_ver_key (ustr ''v+10'')) (spec_ver_key (ustr ''v+2'')) = Inr True"
proof -
  have "spec_ver_key (ustr ''v+2'') = [StrTok (ustr ''+2'')]"
    "spec_ver_key (ustr ''v+10'') = [StrTok (ustr ''+10'')]"
    by (simp_all add: spec_ver_key_def spec_token_def ustr_def ascii_digit_def)
  moreover from this
  have "key_lt (spec_ver_key (ustr ''v+10'')) (spec_ver_key (ustr ''v+2'')) = Inr True"
    by (simp add: ustr_def)
  ultimately show ?thesis
    by (simp add: run_def versions_listing_signed latest_signed)
qed

text \<open>
  Claim C1, amended. For a listing with a version or more, in which no two keys clash (no
  comparison of two of them meets an integer and a string), \<^verbatim>\<open>run\<close> returns one of the
  extracted versions, and no extracted version has a greater key. The key is the one of the
  source: a token is an integer when \<^verbatim>\<open>int\<close> accepts it. What happens when two keys clash
  is claim C2.
\<close>

theorem latest_is_greatest:
  assumes "layout_ok E" and "decode Ignore body = Inr data"
    and "vs = collect_versions (findall_names data)"
    and "vs \<noteq> []" and "sortable (ver_key E) vs"
  shows "\<exists>v. run E (Inr body) = Inr [v] \<and> v \<in> set vs
           \<and> (\<forall>w\<in>set vs. key_lt (ver_key E v) (ver_key E w) = Inr False)"
  using latest_of_maximum [OF assms(1,4,5)] assms(2,3) by (simp add: run_def)

theorem latest_is_greatest_witness:
  "layout_ok env_last \<and> decode Ignore listing_three = Inr (ustr listing_three)
     \<and> collect_versions (findall_names (ustr listing_three)) \<noteq> []
     \<and> sortable (ver_key env_last) (collect_versions (findall_names (ustr listing_three)))
     \<and> (\<exists>v. run env_last (Inr listing_three) = Inr [v]
           \<and> v \<in> set (collect_versions (findall_names (ustr listing_three)))
           \<and> (\<forall>w\<in>set (collect_versions (findall_names (ustr listing_three))).
                 key_lt (ver_key env_last v) (ver_key env_last w) = Inr False))"
proof -
  have vs: "collect_versions (findall_names (ustr listing_three))
              = [ustr ''v0.3.9'', ustr ''v0.3.10'', ustr ''v0.3.2'']"
    unfolding names_listing_three by (simp add: read_text)
  have ne: "collect_versions (findall_names (ustr listing_three)) \<noteq> []"
    unfolding vs by simp
  have s: "sortable (ver_key env_last) (collect_versions (findall_names (ustr listing_three)))"
    unfolding vs by (simp add: sortable_def key_v039 key_v0310 key_v032)
  from latest_is_greatest [OF layout_ok_env_last decode_listing_three refl ne s]
    layout_ok_env_last decode_listing_three ne s
  show ?thesis by blast
qed

text \<open>
  Claim C2. The claim asks for a comparison that is defined for all keys. The source has
  none: for the listing with the versions \<^verbatim>\<open>v1.0.0\<close> and \<^verbatim>\<open>v1.0.rc1\<close> the keys differ at
  the third token, an integer against a string, and \<^verbatim>\<open>run\<close> ends in a \<^verbatim>\<open>TypeError\<close>,
  whichever way the set is iterated.
\<close>

theorem mixed_tokens_raise:
  assumes "layout_ok E"
  shows "run E (Inr listing_mixed) = Inl TypeError"
proof -
  have "key_lt (ver_key E (ustr ''v1.0.0'')) (ver_key E (ustr ''v1.0.rc1'')) = Inl TypeError"
    by (simp add: key_v100 key_v10rc1)
  then have "\<not> sortable (ver_key E) [ustr ''v1.0.0'', ustr ''v1.0.rc1'']"
    by (simp add: sortable_def)
  then show ?thesis
    using run_type_error [OF assms versions_listing_mixed(1)]
    by (simp add: versions_listing_mixed(2))
qed

theorem mixed_tokens_raise_witness:
  "layout_ok env_first \<and> run env_first (Inr listing_mixed) = Inl TypeError"
  using mixed_tokens_raise [OF layout_ok_env_first] layout_ok_env_first by blast

text \<open>
  Claim C3. \<^verbatim>\<open>run\<close> fails with the error "No versions found in GCS listing." exactly
  when a body was received and decoded and no version was extracted from its names. With
  one version or more, the error is not raised.
\<close>

theorem no_versions_iff:
  "run E fetched = Inl no_versions \<longleftrightarrow>
     (\<exists>body data. fetched = Inr body \<and> decode Ignore body = Inr data
        \<and> collect_versions (findall_names data) = [])"
proof (cases fetched)
  case (Inl cause)
  then show ?thesis
    by (simp add: run_def fetch_failed_not_no_versions)
next
  case (Inr body)
  obtain data where "decode Ignore body = Inr data"
    using decode_ignore by blast
  with Inr show ?thesis
    by (simp add: run_def latest_of_no_versions)
qed

text \<open>
  Claim C4. When the request fails, whatever exception the transport raised, \<^verbatim>\<open>run\<close>
  fails with the \<^verbatim>\<open>AnsibleError\<close> whose message is the fixed text followed by the
  description of that exception. The outcome is reached without the environment or any
  later stage: names, versions, keys and the sort play no part in it.
\<close>

theorem fetch_failure_reported:
  "run E (Inl cause) = Inl (AnsibleError (ustr ''Failed to fetch versions: '' @ cause))"
  by (simp add: run_def fetch_failed_def)

text \<open>
  Claim C5. For a listing whose names are the three paths of versions 0.3.9, 0.3.10 and
  0.3.2, \<^verbatim>\<open>run\<close> returns \<^verbatim>\<open>v0.3.10\<close>, whatever the interpreter's iteration order: the
  tokens 9 and 10 are compared as integers.
\<close>

theorem numeric_tokens_compare_as_integers:
  assumes ok: "layout_ok E" and d: "decode Ignore body = Inr data"
    and n: "findall_names data =
              [ustr ''genlayer-node/bin/amd64/v0.3.9/node'',
               ustr ''genlayer-node/bin/amd64/v0.3.10/node'',
               ustr ''genlayer-node/bin/amd64/v0.3.2/node'']"
  shows "run E (Inr body) = Inr [ustr ''v0.3.10'']"
proof -
  let ?vs = "[ustr ''v0.3.9'', ustr ''v0.3.10'', ustr ''v0.3.2'']"
  have vs: "collect_versions (findall_names data) = ?vs"
    unfolding n by (simp add: read_text)
  have s: "sortable (ver_key E) ?vs"
    by (simp add: sortable_def key_v039 key_v0310 key_v032)
  from latest_of_maximum [OF ok _ s] obtain v where v: "latest_of E ?vs = Inr [v]" "v \<in> set ?vs"
    and m: "\<forall>w\<in>set ?vs. key_lt (ver_key E v) (ver_key E w) = Inr False"
    by blast
  from m have "key_lt (ver_key E v) (ver_key E (ustr ''v0.3.10'')) = Inr False"
    by simp
  with v(2) have "v = ustr ''v0.3.10''"
    by (auto simp: key_v039 key_v0310 key_v032)
  with v(1) show ?thesis
    by (simp add: run_def d vs)
qed

theorem numeric_tokens_compare_as_integers_witness:
  "layout_ok env_last \<and> decode Ignore listing_three = Inr (ustr listing_three)
     \<and> findall_names (ustr listing_three) =
              [ustr ''genlayer-node/bin/amd64/v0.3.9/node'',
               ustr ''genlayer-node/bin/amd64/v0.3.10/node'',
               ustr ''genlayer-node/bin/amd64/v0.3.2/node'']
     \<and> run env_last (Inr listing_three) = Inr [ustr ''v0.3.10'']"
  using numeric_tokens_compare_as_integers [OF layout_ok_env_last decode_listing_three names_listing_three]
    layout_ok_env_last decode_listing_three names_listing_three
  by blast

text \<open>
  Claim C6, as it is written, fails. Two distinct versions can have the same key, as
  \<^verbatim>\<open>v1.0\<close> and \<^verbatim>\<open>v1-0\<close> have, and which of two such versions comes first after the sort is
  decided by the order in which the set is iterated. For the listing with the versions
  \<^verbatim>\<open>v1.0\<close>, \<^verbatim>\<open>v1-0\<close>, \<^verbatim>\<open>v1.0\<close> the interpreter \<open>env_last\<close> returns \<^verbatim>\<open>v1-0\<close>; with the
  first of the two names of \<^verbatim>\<open>v1.0\<close> taken away it returns \<^verbatim>\<open>v1.0\<close>.
\<close>

theorem repeated_version_counterexample:
  "decode Ignore listing_tie_repeat = Inr (ustr listing_tie_repeat)
     \<and> decode Ignore listing_tie_single = Inr (ustr listing_tie_single)
     \<and> collect_versions (findall_names (ustr listing_tie_repeat))
         = [ustr ''v1.0'', ustr ''v1-0'', ustr ''v1.0'']
     \<and> collect_versions (findall_names (ustr listing_tie_single)) = [ustr ''v1-0'', ustr ''v1.0'']
     \<and> layout_ok env_last
     \<and> run env_last (Inr listing_tie_repeat) = Inr [ustr ''v1-0'']
     \<and> run env_last (Inr listing_tie_single) = Inr [ustr ''v1.0'']
     \<and> run env_last (Inr listing_tie_repeat) \<noteq> run env_last (Inr listing_tie_single)"
proof -
  have a: "run env_last (Inr listing_tie_repeat) = Inr [ustr ''v1-0'']"
    by (simp add: run_def versions_listing_tie_repeat latest_tie)
  have b: "run env_last (Inr listing_tie_single) = Inr [ustr ''v1.0'']"
    by (simp add: run_def versions_listing_tie_single latest_tie)
  have "ustr ''v1-0'' \<noteq> ustr ''v1.0''"
    by (simp add: ustr_def)
  with a b show ?thesis
    by (simp add: versions_listing_tie_repeat versions_listing_tie_single layout_ok_env_last)
qed

text \<open>
  Claim C6, amended. Take two listings with the same set of extracted versions: they differ
  only in how many names carry a version, and where. The candidates that are sorted hold
  every version once. When \<^verbatim>\<open>run\<close> returns on one listing, it returns on the other, a
  version with the same key, which no extracted key exceeds. It is the same version when no
  two distinct versions have the same key, or when the versions are first extracted in the
  same order.
\<close>

theorem repeated_versions_keep_the_key:
  assumes "layout_ok E"
    and "decode Ignore body = Inr data" and "decode Ignore body' = Inr data'"
    and "vs = collect_versions (findall_names data)"
    and "vs' = collect_versions (findall_names data')"
    and "set vs = set vs'"
    and "run E (Inr body') = Inr r'"
  shows "(\<forall>v\<in>set vs. count_list (set_layout E (py_set vs)) v = 1)
           \<and> (\<exists>v v'. r' = [v'] \<and> run E (Inr body) = Inr [v] \<and> v \<in> set vs \<and> v' \<in> set vs
                 \<and> ver_key E v = ver_key E v'
                 \<and> (\<forall>w\<in>set vs. key_lt (ver_key E v) (ver_key E w) = Inr False)
                 \<and> (inj_on (ver_key E) (set vs) \<or> first_seen vs = first_seen vs' \<longrightarrow> v = v'))"
proof
  have "distinct (set_layout E (py_set vs))"
    by (simp add: layout_distinct [OF assms(1)] distinct_py_set)
  moreover have "set (set_layout E (py_set vs)) = set vs"
    by (simp add: layout_set [OF assms(1)] set_py_set)
  ultimately show "\<forall>v\<in>set vs. count_list (set_layout E (py_set vs)) v = 1"
    by (simp add: count_list_distinct)
  from assms(3,5,7) have "latest_of E vs' = Inr r'"
    by (simp add: run_def)
  from latest_of_same_set [OF assms(1,6) this] assms(2,4)
  show "\<exists>v v'. r' = [v'] \<and> run E (Inr body) = Inr [v] \<and> v \<in> set vs \<and> v' \<in> set vs
          \<and> ver_key E v = ver_key E v'
          \<and> (\<forall>w\<in>set vs. key_lt (ver_key E v) (ver_key E w) = Inr False)
          \<and> (inj_on (ver_key E) (set vs) \<or> first_seen vs = first_seen vs' \<longrightarrow> v = v')"
    by (simp add: run_def)
qed

theorem repeated_versions_keep_the_key_witness:
  "layout_ok env_last
     \<and> decode Ignore listing_repeat = Inr (ustr listing_repeat)
     \<and> decode Ignore listing_swapped = Inr (ustr listing_swapped)
     \<and> collect_versions (findall_names (ustr listing_repeat))
         = [ustr ''v0.3.9'', ustr ''v0.3.10'', ustr ''v0.3.9'']
     \<and> collect_versions (findall_names (ustr listing_swapped))
         = [ustr ''v0.3.10'', ustr ''v0.3.9'']
     \<and> set (collect_versions (findall_names (ustr listing_repeat)))
         = set (collect_versions (findall_names (ustr listing_swapped)))
     \<and> inj_on (ver_key env_last) (set (collect_versions (findall_names (ustr listing_repeat))))
     \<and> run env_last (Inr listing_swapped) = Inr [ustr ''v0.3.10'']
     \<and> run env_last (Inr listing_repeat) = Inr [ustr ''v0.3.10'']
     \<and> count_list (set_layout env_last (py_set (collect_versions
           (findall_names (ustr listing_repeat))))) (ustr ''v0.3.9'') = 1"
proof -
  let ?vs = "collect_versions (findall_names (ustr listing_repeat))"
  let ?vs' = "collect_versions (findall_names (ustr listing_swapped))"
  from repeated_versions_keep_the_key
    [OF layout_ok_env_last versions_listing_repeat(1) versions_listing_swapped(1) refl refl
        same_set_swapped run_listing_swapped]
  have c: "\<forall>v\<in>set ?vs. count_list (set_layout env_last (py_set ?vs)) v = 1"
    and "\<exists>v v'. [ustr ''v0.3.10''] = [v'] \<and> run env_last (Inr listing_repeat) = Inr [v]
           \<and> (inj_on (ver_key env_last) (set ?vs) \<or> first_seen ?vs = first_seen ?vs' \<longrightarrow> v = v')"
    by blast+
  with distinct_keys_repeat have "run env_last (Inr listing_repeat) = Inr [ustr ''v0.3.10'']"
    by auto
  moreover have "ustr ''v0.3.9'' \<in> set ?vs"
    by (simp add: versions_listing_repeat)
  ultimately show ?thesis
    using c layout_ok_env_last versions_listing_repeat versions_listing_swapped same_set_swapped
      run_listing_swapped distinct_keys_repeat
    by blast
qed

text \<open>
  Claim C7. A key is smaller than every key that extends it, and is never greater. The key
  of \<^verbatim>\<open>v1.0.0-rc1\<close> extends the key of \<^verbatim>\<open>v1.0.0\<close> by the token \<^verbatim>\<open>rc1\<close>, so the descending
  sort of the two puts \<^verbatim>\<open>v1.0.0-rc1\<close> first, in whichever order they come.
\<close>

theorem longer_key_is_greater:
  "key_lt k (k @ t # ts) = Inr True \<and> key_lt (k @ t # ts) k = Inr False
     \<and> ver_key E (ustr ''v1.0.0-rc1'') = ver_key E (ustr ''v1.0.0'') @ [StrTok (ustr ''rc1'')]
     \<and> py_sorted (ver_key E) True [ustr ''v1.0.0'', ustr ''v1.0.0-rc1'']
         = Inr [ustr ''v1.0.0-rc1'', ustr ''v1.0.0'']
     \<and> py_sorted (ver_key E) True [ustr ''v1.0.0-rc1'', ustr ''v1.0.0'']
         = Inr [ustr ''v1.0.0-rc1'', ustr ''v1.0.0'']"
  by (simp add: key_lt_prefix py_sorted_def key_v100 key_v100rc1)

text \<open>
  Claim C8. The version taken from a name is the first of its segments, among those that
  have a \<^verbatim>\<open>/\<close> on both sides, that is \<^verbatim>\<open>v\<close> followed by one character or more. The
  versions of a list of names are these segments in the order of the names; a name without
  such a segment adds nothing, and there is no failure in this stage.
\<close>

theorem version_of_name:
  "search_version n = first_version_segment n
     \<and> collect_versions ns = List.map_filter first_version_segment ns"
proof
  show "search_version n = first_version_segment n"
    by (rule search_version_segments)
  have "search_version = first_version_segment"
    by (rule ext) (rule search_version_segments)
  then show "collect_versions ns = List.map_filter first_version_segment ns"
    by (simp add: collect_versions_map_filter)
qed

text \<open>
  Claim C9. With the handler \<^verbatim>\<open>ignore\<close> the decoder returns a text for every byte
  sequence, so a body that was received always reaches the later stages: the outcome of
  \<^verbatim>\<open>run\<close> is the outcome of lines 47 to 67 on the decoded text.
\<close>

theorem decode_never_fails:
  "\<exists>data. decode Ignore body = Inr data
      \<and> run E (Inr body) = latest_of E (collect_versions (findall_names data))"
proof -
  obtain data where "decode Ignore body = Inr data"
    using decode_ignore by blast
  then show ?thesis by (simp add: run_def)
qed

text \<open>
  Claim C10. When \<^verbatim>\<open>run\<close> returns, it returns a list of one element, and this element is
  one of the versions extracted from the names of the listing; so it starts with \<^verbatim>\<open>v\<close>,
  has a character after it, and holds no \<^verbatim>\<open>/\<close>.
\<close>

theorem result_is_extracted_version:
  assumes "layout_ok E" and "run E fetched = Inr r"
  shows "\<exists>body data v rest. fetched = Inr body \<and> decode Ignore body = Inr data
           \<and> r = [v] \<and> v \<in> set (collect_versions (findall_names data))
           \<and> v = 118 # rest \<and> rest \<noteq> [] \<and> 47 \<notin> set v"
proof -
  from assms(2) obtain body data where f: "fetched = Inr body" and d: "decode Ignore body = Inr data"
    and l: "latest_of E (collect_versions (findall_names data)) = Inr r"
    by (auto simp: run_def split: sum.splits)
  from latest_of_member [OF assms(1) l] obtain v where v: "r = [v]"
    "v \<in> set (collect_versions (findall_names data))" by blast
  from collect_versions_shape [OF v(2)] obtain rest where "v = 118 # rest" "rest \<noteq> []" "47 \<notin> set rest"
    by blast
  with f d v show ?thesis by auto
qed

theorem result_is_extracted_version_witness:
  "layout_ok env_first \<and> run env_first (Inr listing_plain) = Inr [ustr ''v0.3.10'']
     \<and> (\<exists>body data v rest. (Inr listing_plain :: pystr + string) = Inr body
           \<and> decode Ignore body = Inr data
           \<and> [ustr ''v0.3.10''] = [v] \<and> v \<in> set (collect_versions (findall_names data))
           \<and> v = 118 # rest \<and> rest \<noteq> [] \<and> 47 \<notin> set v)"
  using result_is_extracted_version [OF layout_ok_env_first run_listing_plain]
    layout_ok_env_first run_listing_plain
  by blast

end
